theory Spec2Isabelle
  imports Main "HOL-Library.Word"
begin

section \<open>The buffer structure of buffer.c\<close>

text \<open>
  \<^verbatim>\<open>struct buf { char *data; size_t size; size_t asize; size_t unit; int ref; }\<close>.
  A \<^verbatim>\<open>size_t\<close> is a 64-bit word and an \<^verbatim>\<open>int\<close> a 32-bit word (LP64), with the
  wrap-around of the machine. A byte is a \<open>char\<close>. The \<^verbatim>\<open>data\<close> pointer is \<open>None\<close>
  when null and otherwise holds the bytes of the storage it points to: all of them, the
  slack after \<^verbatim>\<open>size\<close> included. A pointer to a buffer is a \<open>buf option\<close> where only
  one buffer is in play, and an address in a store where aliasing matters (\<open>bufset\<close>).
  The counters of \<^verbatim>\<open>BUFFER_STATS\<close> are left out: no function reads them. Of the
  functions of buffer.c, \<^verbatim>\<open>bufcmp\<close>, \<^verbatim>\<open>bufcasecmp\<close>, \<^verbatim>\<open>bufnullterm\<close> and \<^verbatim>\<open>bufreset\<close>
  are not modelled: no property below is about them.
\<close>

type_synonym size_t = "64 word"
type_synonym cint = "32 word"

record buf =
  data :: "string option"
  size_buf :: size_t
  asize :: size_t
  unit :: size_t
  ref :: cint

text \<open>What C leaves undefined is a value of its own.\<close>

datatype fault = NullDeref | OutOfBounds | DivByZero | DanglingPointer

text \<open>
  The outcome of an allocation is an input of the model: \<open>None\<close> when \<^verbatim>\<open>malloc\<close> or
  \<^verbatim>\<open>realloc\<close> returns null, and otherwise the indeterminate bytes of the fresh storage,
  by offset.
\<close>

type_synonym alloc = "(nat \<Rightarrow> char) option"

definition realloc :: "string option \<Rightarrow> size_t \<Rightarrow> alloc \<Rightarrow> string option" where
  "realloc old n a =
     (case a of
        None \<Rightarrow> None
      | Some junk \<Rightarrow>
          (let bs = (case old of None \<Rightarrow> [] | Some r \<Rightarrow> r)
           in Some (take (unat n) bs @ map junk [length bs ..< unat n])))"

subsection \<open>bufgrow\<close>

text \<open>
  \<^verbatim>\<open>while (neoasz < neosz) neoasz += buf->unit;\<close> The addition wraps, so the loop need
  not end: not returning is \<open>None\<close>.
\<close>

partial_function (option) bufgrow_loop :: "size_t \<Rightarrow> size_t \<Rightarrow> size_t \<Rightarrow> size_t option" where
  "bufgrow_loop neoasz neosz u =
     (if neoasz < neosz then bufgrow_loop (neoasz + u) neosz u else Some neoasz)"

declare bufgrow_loop.simps [code]

text \<open>The result is the returned \<^verbatim>\<open>int\<close> and the buffer after the call.\<close>

definition bufgrow :: "buf option \<Rightarrow> size_t \<Rightarrow> alloc \<Rightarrow> (cint \<times> buf option) option" where
  "bufgrow bo neosz a =
     (case bo of
        None \<Rightarrow> Some (0, None)
      | Some b \<Rightarrow>
          if unit b = 0 then Some (0, Some b)
          else if asize b \<ge> neosz then Some (1, Some b)
          else
            (case bufgrow_loop (asize b + unit b) neosz (unit b) of
               None \<Rightarrow> None
             | Some neoasz \<Rightarrow>
                 (case realloc (data b) neoasz a of
                    None \<Rightarrow> Some (0, Some b)
                  | Some neodata \<Rightarrow>
                      Some (1, Some (b\<lparr>data := Some neodata, asize := neoasz\<rparr>)))))"

section \<open>Bytes and the C library\<close>

text \<open>
  A C string is the list of the bytes at its address; the terminator is the first
  NUL in it, or the byte after its last one.
\<close>

definition NUL :: char where
  "NUL = CHR 0x00"

definition cstr_at :: "string \<Rightarrow> nat \<Rightarrow> char" where
  "cstr_at s i = (if i < length s then s ! i else NUL)"

definition strlen :: "string \<Rightarrow> size_t" where
  "strlen s = of_nat (length (takeWhile (\<lambda>c. c \<noteq> NUL) s))"

text \<open>
  \<^verbatim>\<open>strncmp(s1, s2, n)\<close> of the C library, with \<open>s1\<close> a storage of known extent and
  \<open>s2\<close> a C string: the bytes are compared as \<^verbatim>\<open>unsigned char\<close>, up to \<open>n\<close> of them
  and not beyond a NUL. C fixes the sign of the result only; the difference of the
  two bytes is the usual value.
\<close>

fun strncmp :: "string \<Rightarrow> string \<Rightarrow> nat \<Rightarrow> nat \<Rightarrow> fault + int" where
  "strncmp s1 s2 i 0 = Inr 0"
| "strncmp s1 s2 i (Suc n) =
     (if length s1 \<le> i then Inl OutOfBounds
      else if s1 ! i \<noteq> cstr_at s2 i
        then Inr (int (of_char (s1 ! i)) - int (of_char (cstr_at s2 i)))
      else if s1 ! i = NUL then Inr 0
      else strncmp s1 s2 (Suc i) n)"

text \<open>
  \<^verbatim>\<open>memcpy(dst + off, src, n)\<close> and \<^verbatim>\<open>memmove(p + to, p + from, n)\<close>, on storages
  of known extent. Nothing is accessed when \<open>n = 0\<close>.
\<close>

definition memcpy :: "string option \<Rightarrow> nat \<Rightarrow> string option \<Rightarrow> nat \<Rightarrow> fault + string option" where
  "memcpy dst off src n =
     (if n = 0 then Inr dst
      else
        (case (dst, src) of
           (Some d, Some s) \<Rightarrow>
             if length d < off + n \<or> length s < n then Inl OutOfBounds
             else Inr (Some (take off d @ take n s @ drop (off + n) d))
         | _ \<Rightarrow> Inl NullDeref))"

definition memmove :: "string option \<Rightarrow> nat \<Rightarrow> nat \<Rightarrow> nat \<Rightarrow> fault + string option" where
  "memmove p to from n =
     (if n = 0 then Inr p
      else
        (case p of
           None \<Rightarrow> Inl NullDeref
         | Some d \<Rightarrow>
             if length d < to + n \<or> length d < from + n then Inl OutOfBounds
             else Inr (Some (take to d @ take n (drop from d) @ drop (to + n) d))))"

subsection \<open>bufcmps\<close>

text \<open>
  \<^verbatim>\<open>strlen(b)\<close> is the first statement, before any test of \<open>b\<close>. The result lies
  between -255 and 255 and is an \<open>int\<close>.
\<close>

definition bufcmps :: "buf option \<Rightarrow> string option \<Rightarrow> fault + int" where
  "bufcmps a b =
     (case b of
        None \<Rightarrow> Inl NullDeref
      | Some s \<Rightarrow>
          (let len = strlen s;
               early = Inr (if b \<noteq> None then 0 else - 1)
           in case a of
                None \<Rightarrow> early
              | Some ab \<Rightarrow>
                  if size_buf ab = 0 then early
                  else
                    (let cmplen = (if len < size_buf ab then size_buf ab else len) in
                     case data ab of
                       None \<Rightarrow> Inl NullDeref
                     | Some d \<Rightarrow>
                         (case strncmp d s 0 (unat cmplen) of
                            Inl e \<Rightarrow> Inl e
                          | Inr r \<Rightarrow>
                              if r \<noteq> 0 then Inr r
                              else if size_buf ab = len then Inr 0
                              else if size_buf ab < len then Inr (- 1)
                              else Inr 1))))"

subsection \<open>bufslurp\<close>

definition bufslurp :: "buf option \<Rightarrow> size_t \<Rightarrow> fault + buf option" where
  "bufslurp bo len =
     (case bo of
        None \<Rightarrow> Inr None
      | Some b \<Rightarrow>
          if unit b = 0 \<or> len \<le> 0 then Inr (Some b)
          else if len \<ge> size_buf b then Inr (Some (b\<lparr>size_buf := 0\<rparr>))
          else
            (case memmove (data b) 0 (unat len) (unat (size_buf b - len)) of
               Inl e \<Rightarrow> Inl e
             | Inr d \<Rightarrow> Inr (Some (b\<lparr>data := d, size_buf := size_buf b - len\<rparr>))))"

subsection \<open>buftoi\<close>

text \<open>
  \<^verbatim>\<open>c >= '0' && c <= '9'\<close>. A byte above 127 fails the first test where \<^verbatim>\<open>char\<close> is
  signed and the second where it is not, so the test is the same on the byte's
  unsigned value.
\<close>

definition is_digit :: "char \<Rightarrow> bool" where
  "is_digit c =
     ((of_char (CHR ''0'') :: nat) \<le> of_char c \<and> (of_char c :: nat) \<le> of_char (CHR ''9''))"

text \<open>
  The loop \<^verbatim>\<open>while (i < buf->size && digit(buf->data[i])) { r = r * 10 + buf->data[i] - '0'; i += 1; }\<close>.
  Beside its result it returns the indices of \<^verbatim>\<open>data\<close> that it read, in order; a
  read outside the storage is a fault.
\<close>

function buftoi_loop ::
  "string \<Rightarrow> size_t \<Rightarrow> size_t \<Rightarrow> cint \<Rightarrow> nat list \<Rightarrow> nat list \<times> (fault + cint \<times> size_t)" where
  "buftoi_loop d sz i r tr =
     (if i < sz then
        (if length d \<le> unat i then (tr @ [unat i], Inl OutOfBounds)
         else if is_digit (d ! unat i)
           then buftoi_loop d sz (i + 1)
                  (r * 10 + of_char (d ! unat i) - of_char (CHR ''0'')) (tr @ [unat i])
         else (tr @ [unat i], Inr (r, i)))
      else (tr, Inr (r, i)))"
  by pat_completeness auto
termination
proof (relation "measure (\<lambda>(d, sz, i, r, tr). unat sz - unat i)")
  show "wf (measure (\<lambda>(d, sz, i, r, tr). unat sz - unat i))"
    by simp
next
  fix d :: string and sz i :: size_t and r :: cint and tr :: "nat list"
  assume "i < sz"
  then have lt: "unat i < unat sz"
    by (simp add: word_less_nat_alt)
  moreover have "unat sz < 2 ^ LENGTH(64)"
    by (rule unsigned_less)
  ultimately have "unat i + unat (1 :: size_t) < 2 ^ LENGTH(64)"
    by simp
  then have "unat (i + 1) = unat i + unat (1 :: size_t)"
    by (simp only: unat_add_lem)
  then show "((d, sz, i + 1, r * 10 + of_char (d ! unat i) - of_char (CHR ''0''), tr @ [unat i]),
              (d, sz, i, r, tr)) \<in> measure (\<lambda>(d, sz, i, r, tr). unat sz - unat i)"
    using lt by simp
qed

declare buftoi_loop.simps [simp del]

text \<open>
  \<open>offset_o\<close> is \<open>None\<close> for a null pointer and otherwise the value that the
  pointed-to \<^verbatim>\<open>size_t\<close> holds; the result has it after the call. The first component
  of the result lists the indices at which \<^verbatim>\<open>data\<close> was read, the one of a faulting
  read included.
\<close>

definition buftoi ::
  "buf option \<Rightarrow> size_t \<Rightarrow> size_t option \<Rightarrow> nat list \<times> (fault + cint \<times> size_t option)" where
  "buftoi bo offset_i offset_o =
     (case bo of
        None \<Rightarrow> ([], Inr (0, offset_o))
      | Some b \<Rightarrow>
          if size_buf b = 0 then ([], Inr (0, offset_o))
          else
            (case data b of
               None \<Rightarrow> ([unat offset_i], Inl NullDeref)
             | Some d \<Rightarrow>
                 if length d \<le> unat offset_i then ([unat offset_i], Inl OutOfBounds)
                 else
                   (let c = d ! unat offset_i;
                        neg = (c \<noteq> CHR ''+'' \<and> c = CHR ''-'');
                        i = (if c = CHR ''+'' then offset_i + 1
                             else if c = CHR ''-'' then offset_i + 1
                             else offset_i)
                    in case buftoi_loop d (size_buf b) i 0 [unat offset_i] of
                         (tr, Inl e) \<Rightarrow> (tr, Inl e)
                       | (tr, Inr (r, i')) \<Rightarrow>
                           (tr, Inr (if neg then - r else r,
                                     case offset_o of None \<Rightarrow> None | Some _ \<Rightarrow> Some i')))))"

subsection \<open>bufnew and bufdup\<close>

text \<open>\<open>ok\<close> tells whether \<^verbatim>\<open>malloc(sizeof (struct buf))\<close> returned storage.\<close>

definition bufnew :: "size_t \<Rightarrow> bool \<Rightarrow> buf option" where
  "bufnew u ok =
     (if ok then Some \<lparr>data = None, size_buf = 0, asize = 0, unit = u, ref = 1\<rparr> else None)"

text \<open>
  \<^verbatim>\<open>blocks = (src->size + dupunit - 1) / dupunit; ret->asize = blocks * dupunit;\<close> is
  \<open>dup_asize\<close>, in \<^verbatim>\<open>size_t\<close> arithmetic. A division by zero is a fault. \<open>a\<close> is
  the outcome of \<^verbatim>\<open>malloc(ret->asize)\<close>, a \<open>realloc\<close> of the null pointer.
\<close>

definition dup_asize :: "size_t \<Rightarrow> size_t \<Rightarrow> size_t" where
  "dup_asize sz dupunit = (let blocks = (sz + dupunit - 1) div dupunit in blocks * dupunit)"

definition bufdup :: "buf option \<Rightarrow> size_t \<Rightarrow> bool \<Rightarrow> alloc \<Rightarrow> fault + buf option" where
  "bufdup src dupunit ok a =
     (case src of
        None \<Rightarrow> Inr None
      | Some sb \<Rightarrow>
          if \<not> ok then Inr None
          else if size_buf sb = 0
            then Inr (Some \<lparr>data = None, size_buf = size_buf sb, asize = 0,
                             unit = dupunit, ref = 1\<rparr>)
          else if dupunit = 0 then Inl DivByZero
          else
            (case realloc None (dup_asize (size_buf sb) dupunit) a of
               None \<Rightarrow> Inr None
             | Some fresh \<Rightarrow>
                 (case memcpy (Some fresh) 0 (data sb) (unat (size_buf sb)) of
                    Inl e \<Rightarrow> Inl e
                  | Inr d \<Rightarrow>
                      Inr (Some \<lparr>data = d, size_buf = size_buf sb,
                                   asize = dup_asize (size_buf sb) dupunit,
                                   unit = dupunit, ref = 1\<rparr>))))"

subsection \<open>bufput, bufputs, bufputc\<close>

text \<open>
  \<open>dat\<close> holds the bytes at the \<^verbatim>\<open>data\<close> argument. The buffer that \<open>bufgrow\<close>
  returns is the caller's own, so it is never null here.
\<close>

definition bufput :: "buf option \<Rightarrow> string \<Rightarrow> size_t \<Rightarrow> alloc \<Rightarrow> (fault + buf option) option" where
  "bufput bo dat len a =
     (case bo of
        None \<Rightarrow> Some (Inr None)
      | Some b \<Rightarrow>
          (case bufgrow (Some b) (size_buf b + len) a of
             None \<Rightarrow> None
           | Some (r, None) \<Rightarrow> Some (Inr None)
           | Some (r, Some b') \<Rightarrow>
               if r = 0 then Some (Inr (Some b'))
               else
                 (case memcpy (data b') (unat (size_buf b')) (Some dat) (unat len) of
                    Inl e \<Rightarrow> Some (Inl e)
                  | Inr d \<Rightarrow> Some (Inr (Some (b'\<lparr>data := d, size_buf := size_buf b' + len\<rparr>))))))"



subsection \<open>bufrelease and bufset\<close>




subsection \<open>vbufprintf and bufprintf\<close>







section \<open>Contents and well-formed buffers\<close>

text \<open>
  The storage behind \<^verbatim>\<open>data\<close>, and the logical contents: its first \<^verbatim>\<open>size\<close> bytes.
\<close>

definition storage :: "buf \<Rightarrow> string" where
  "storage b = (case data b of None \<Rightarrow> [] | Some d \<Rightarrow> d)"

definition contents :: "buf \<Rightarrow> string" where
  "contents b = take (unat (size_buf b)) (storage b)"

section \<open>The integer at an offset, as the specification words it\<close>

text \<open>
  The specification of \<open>buftoi\<close>, on the logical contents \<open>s\<close> of the buffer: an
  optional sign at \<open>start\<close>, then the longest run of decimal digits; the value is that
  of the run read as a decimal numeral, negated after a minus sign, and the end offset
  is the one just after the run. \<open>accum\<close> is the accumulation of the code's loop over
  a run of digits, in the arithmetic of \<^verbatim>\<open>int\<close>.
\<close>

definition digits_value :: "string \<Rightarrow> nat" where
  "digits_value ds = foldl (\<lambda>n c. 10 * n + (of_char c - of_char (CHR ''0''))) 0 ds"

definition parse_leading_integer :: "string \<Rightarrow> nat \<Rightarrow> int \<times> nat" where
  "parse_leading_integer s start =
     (let p = (if s ! start = CHR ''+'' \<or> s ! start = CHR ''-'' then start + 1 else start);
          ds = takeWhile is_digit (drop p s);
          v = int (digits_value ds)
      in (if s ! start = CHR ''-'' then - v else v, p + length ds))"

definition accum :: "cint \<Rightarrow> string \<Rightarrow> cint" where
  "accum r ds = foldl (\<lambda>r c. r * 10 + of_char c - of_char (CHR ''0'')) r ds"

section \<open>Facts about \<^verbatim>\<open>size_t\<close>, \<^verbatim>\<open>int\<close> and \<^verbatim>\<open>memcpy\<close>\<close>

lemma size_t_succ: "(i :: size_t) < sz \<Longrightarrow> unat (i + 1) = Suc (unat i)"
proof -
  assume "i < sz"
  then have "unat i < unat sz"
    by (simp add: word_less_nat_alt)
  moreover have "unat sz < 2 ^ LENGTH(64)"
    by (rule unsigned_less)
  ultimately have "unat i + unat (1 :: size_t) < 2 ^ LENGTH(64)"
    by simp
  then have "unat (i + 1) = unat i + unat (1 :: size_t)"
    by (simp only: unat_add_lem)
  then show ?thesis
    by simp
qed






section \<open>Growth of a read-only buffer\<close>

text \<open>
  C2, as the code has it: on a read-only buffer (\<^verbatim>\<open>unit == 0\<close>) \<open>bufgrow\<close> leaves the
  buffer as it is and returns 0, which is failure, for every target size and every
  outcome of the allocator.
\<close>

theorem bufgrow_read_only:
  "unit b = 0 \<Longrightarrow> bufgrow (Some b) neosz a = Some (0, Some b)"
  by (simp add: bufgrow_def)

theorem bufgrow_read_only_witness:
  "unit \<lparr>data = Some (''abc'' @ [NUL]), size_buf = 3, asize = 4, unit = 0, ref = 0\<rparr> = 0
   \<and> bufgrow (Some \<lparr>data = Some (''abc'' @ [NUL]), size_buf = 3, asize = 4, unit = 0, ref = 0\<rparr>) 10 None
       = Some (0, Some \<lparr>data = Some (''abc'' @ [NUL]), size_buf = 3, asize = 4, unit = 0, ref = 0\<rparr>)"
  using bufgrow_read_only
    [of "\<lparr>data = Some (''abc'' @ [NUL]), size_buf = 3, asize = 4, unit = 0, ref = 0\<rparr>" 10 None]
  by simp

text \<open>
  C2 as the specification words it (the call succeeds) fails: on the buffer that
  \<^verbatim>\<open>CONST_BUF\<close> makes over \<^verbatim>\<open>"abc"\<close>, with a target of 10, the call does not return 1 with
  the buffer as it was.
\<close>

theorem bufgrow_read_only_counterexample:
  "bufgrow (Some \<lparr>data = Some (''abc'' @ [NUL]), size_buf = 3, asize = 4, unit = 0, ref = 0\<rparr>) 10 (Some (\<lambda>_. CHR ''x''))
     \<noteq> Some (1, Some \<lparr>data = Some (''abc'' @ [NUL]), size_buf = 3, asize = 4, unit = 0, ref = 0\<rparr>)"
  by (simp add: bufgrow_def)

section \<open>Comparison with a C string\<close>

text \<open>
  C4, at the inputs where the code departs from it: the empty buffer made by
  \<^verbatim>\<open>bufnew(1)\<close> and the null buffer compare equal (0) to the string \<^verbatim>\<open>"abc"\<close>, which
  is not null, where the claim wants a negative result; and with a null string the call
  faults in \<^verbatim>\<open>strlen\<close> before any test, where the claim wants 0.
\<close>

theorem bufcmps_empty_buffer_eval:
  "bufcmps (Some \<lparr>data = None, size_buf = 0, asize = 0, unit = 1, ref = 1\<rparr>) (Some ''abc'') = Inr 0
   \<and> bufcmps None (Some ''abc'') = Inr 0
   \<and> bufcmps (Some \<lparr>data = None, size_buf = 0, asize = 0, unit = 1, ref = 1\<rparr>) None = Inl NullDeref
   \<and> bufcmps None None = Inl NullDeref"
  by (simp add: bufcmps_def)

text \<open>
  C5, at the inputs where the code departs from it. \<^verbatim>\<open>"ab"\<close> is appended to a new
  buffer and compared with the string \<^verbatim>\<open>"abc"\<close>: the two agree on the 2 bytes they
  share and the buffer is the shorter. The code compares max(size, strlen) = 3 bytes.
  In a buffer of unit 4 it reads the byte after the contents, which \<^verbatim>\<open>realloc\<close> left
  indeterminate, and with \<^verbatim>\<open>'z'\<close> there it returns a positive result; in a buffer of
  unit 1 it reads past the storage. On \<^verbatim>\<open>"abc"\<close> against \<^verbatim>\<open>"abd"\<close> the result is
  negative, as the claim says.
\<close>

theorem bufcmps_reads_past_size_eval:
  "bufput (bufnew 4 True) ''ab'' 2 (Some (\<lambda>_. CHR ''z''))
     = Some (Inr (Some \<lparr>data = Some ''abzz'', size_buf = 2, asize = 4, unit = 4, ref = 1\<rparr>))
   \<and> bufcmps (Some \<lparr>data = Some ''abzz'', size_buf = 2, asize = 4, unit = 4, ref = 1\<rparr>) (Some ''abc'')
       = Inr 23
   \<and> bufput (bufnew 1 True) ''ab'' 2 (Some (\<lambda>_. CHR ''z''))
     = Some (Inr (Some \<lparr>data = Some ''ab'', size_buf = 2, asize = 2, unit = 1, ref = 1\<rparr>))
   \<and> bufcmps (Some \<lparr>data = Some ''ab'', size_buf = 2, asize = 2, unit = 1, ref = 1\<rparr>) (Some ''abc'')
       = Inl OutOfBounds
   \<and> bufcmps (Some \<lparr>data = Some ''abc'', size_buf = 3, asize = 3, unit = 1, ref = 1\<rparr>) (Some ''abd'')
       = Inr (- 1)"
  by code_simp

section \<open>Removing a prefix\<close>

lemma bufslurp_shift:
  assumes u: "unit b \<noteq> 0" and k: "0 < k" "k < size_buf b"
    and v: "unat (size_buf b) \<le> length (storage b)"
  shows "bufslurp (Some b) k =
      Inr (Some (b\<lparr>data := Some (take (unat (size_buf b) - unat k) (drop (unat k) (storage b))
                              @ drop (unat (size_buf b) - unat k) (storage b)),
                  size_buf := size_buf b - k\<rparr>))"
proof -
  have us: "unat (size_buf b - k) = unat (size_buf b) - unat k"
    using k by (simp add: unat_sub)
  have lt: "unat k < unat (size_buf b)"
    using k by (simp add: word_less_nat_alt)
  have pos: "0 < unat k" using k by (simp add: unat_gt_0)
  obtain d where d: "data b = Some d"
    using v lt by (cases "data b") (auto simp: storage_def)
  show ?thesis
    using u k v lt pos d
    by (simp add: bufslurp_def memmove_def us storage_def not_le word_le_nat_alt)
qed


lemma bufslurp_all:
  "unit b \<noteq> 0 \<Longrightarrow> size_buf b \<le> k \<Longrightarrow> \<exists>b'. bufslurp (Some b) k = Inr (Some b') \<and> size_buf b' = 0"
  by (cases "k = 0") (auto simp: bufslurp_def)

lemma bufslurp_contents:
  assumes u: "unit b \<noteq> 0" and k: "0 < k" "k \<le> size_buf b"
    and v: "unat (size_buf b) \<le> length (storage b)"
  shows "\<exists>b'. bufslurp (Some b) k = Inr (Some b') \<and> unit b' = unit b
            \<and> size_buf b' = size_buf b - k
            \<and> contents b' = drop (unat k) (contents b)
            \<and> length (storage b') = length (storage b)"
proof (cases "k = size_buf b")
  case True
  then have "bufslurp (Some b) k = Inr (Some (b\<lparr>size_buf := 0\<rparr>))"
    using u k by (auto simp: bufslurp_def)
  then show ?thesis
    using True by (simp add: contents_def storage_def)
next
  case False
  then have lt: "k < size_buf b" using k by simp
  have n: "unat k < unat (size_buf b)"
    using lt by (simp add: word_less_nat_alt)
  have us: "unat (size_buf b - k) = unat (size_buf b) - unat k"
    using lt by (simp add: unat_sub)
  define d where "d = storage b"
  define b' where "b' = b\<lparr>data := Some (take (unat (size_buf b) - unat k) (drop (unat k) d)
                              @ drop (unat (size_buf b) - unat k) d),
                  size_buf := size_buf b - k\<rparr>"
  have r: "bufslurp (Some b) k = Inr (Some b')"
    using bufslurp_shift [OF u k(1) lt v] by (simp add: b'_def d_def)
  have len: "unat (size_buf b) \<le> length d"
    using v by (simp add: d_def)
  have l1: "length (take (unat (size_buf b) - unat k) (drop (unat k) d)) = unat (size_buf b) - unat k"
    using len n by simp
  have c: "contents b' = take (unat (size_buf b) - unat k) (drop (unat k) d)"
    using l1 by (simp add: contents_def storage_def b'_def us)
  have "contents b' = drop (unat k) (contents b)"
    unfolding c by (simp add: contents_def d_def drop_take)
  moreover have "storage b' = take (unat (size_buf b) - unat k) (drop (unat k) d)
                              @ drop (unat (size_buf b) - unat k) d"
    by (simp add: storage_def b'_def)
  then have "length (storage b') = length (storage b)"
    using len n by (simp add: d_def [symmetric])
  ultimately show ?thesis
    using r by (simp add: b'_def)
qed

text \<open>
  C7: on a buffer that may be written (\<^verbatim>\<open>unit > 0\<close>) and whose \<^verbatim>\<open>size\<close> bytes lie in its
  storage, for positive \<open>k\<close> and \<open>k2\<close> with \<open>k + k2\<close> at most \<^verbatim>\<open>size\<close>, \<open>bufslurp\<close> by \<open>k\<close>
  and then by \<open>k2\<close> leaves the same \<^verbatim>\<open>size\<close> and the same contents as one \<open>bufslurp\<close> by
  \<open>k + k2\<close>: the old contents without their first \<open>k + k2\<close> bytes. And \<open>bufslurp\<close> by
  \<^verbatim>\<open>size\<close> leaves \<^verbatim>\<open>size\<close> 0.
\<close>

theorem bufslurp_twice:
  assumes u: "unit b \<noteq> 0" and k: "0 < k" "0 < k2"
    and within: "unat k + unat k2 \<le> unat (size_buf b)"
    and v: "unat (size_buf b) \<le> length (storage b)"
  shows "(\<exists>b1 b2 b3.
            bufslurp (Some b) k = Inr (Some b1) \<and> bufslurp (Some b1) k2 = Inr (Some b2)
            \<and> bufslurp (Some b) (k + k2) = Inr (Some b3)
            \<and> size_buf b2 = size_buf b3 \<and> contents b2 = contents b3
            \<and> contents b3 = drop (unat k + unat k2) (contents b))
         \<and> (\<exists>b'. bufslurp (Some b) (size_buf b) = Inr (Some b') \<and> size_buf b' = 0)"
proof -
  have lim: "unat (size_buf b) < 2 ^ LENGTH(64)"
    using unsigned_less [of "size_buf b"] by simp
  have sum: "unat (k + k2) = unat k + unat k2"
    using within lim by (simp add: unat_add_lem [THEN iffD1])
  have k_le: "k \<le> size_buf b" and kk2_le: "k + k2 \<le> size_buf b"
    using within sum by (simp_all add: word_le_nat_alt)
  obtain b1 where b1: "bufslurp (Some b) k = Inr (Some b1)" "unit b1 = unit b"
      "size_buf b1 = size_buf b - k" "contents b1 = drop (unat k) (contents b)"
      "length (storage b1) = length (storage b)"
    using bufslurp_contents [OF u k(1) k_le v] by blast
  have s1: "unat (size_buf b1) = unat (size_buf b) - unat k"
    using b1(3) k_le by (simp add: unat_sub)
  have k2_le: "k2 \<le> size_buf b1"
    using within s1 by (simp add: word_le_nat_alt)
  have v1: "unat (size_buf b1) \<le> length (storage b1)"
    using v s1 b1(5) by simp
  obtain b2 where b2: "bufslurp (Some b1) k2 = Inr (Some b2)"
      "size_buf b2 = size_buf b1 - k2" "contents b2 = drop (unat k2) (contents b1)"
    using bufslurp_contents [OF _ k(2) k2_le v1] u b1(2) by auto
  have kk2_pos: "0 < k + k2"
    using sum k by (simp add: word_less_nat_alt)
  obtain b3 where b3: "bufslurp (Some b) (k + k2) = Inr (Some b3)"
      "size_buf b3 = size_buf b - (k + k2)" "contents b3 = drop (unat (k + k2)) (contents b)"
    using bufslurp_contents [OF u kk2_pos kk2_le v] by blast
  have "size_buf b2 = size_buf b3"
    using b2(2) b1(3) b3(2) by simp
  moreover have "contents b2 = contents b3"
    using b2(3) b1(4) b3(3) sum by (simp add: add.commute)
  moreover have "contents b3 = drop (unat k + unat k2) (contents b)"
    using b3(3) sum by simp
  ultimately have first: "\<exists>b1 b2 b3.
            bufslurp (Some b) k = Inr (Some b1) \<and> bufslurp (Some b1) k2 = Inr (Some b2)
            \<and> bufslurp (Some b) (k + k2) = Inr (Some b3)
            \<and> size_buf b2 = size_buf b3 \<and> contents b2 = contents b3
            \<and> contents b3 = drop (unat k + unat k2) (contents b)"
    using b1(1) b2(1) b3(1) by blast
  show ?thesis
    using first bufslurp_all [OF u order_refl] by blast
qed

theorem bufslurp_twice_witness:
  "bufslurp (Some \<lparr>data = Some ''abcdefgh'', size_buf = 6, asize = 8, unit = 4, ref = 1\<rparr>) 2
     = Inr (Some \<lparr>data = Some ''cdefefgh'', size_buf = 4, asize = 8, unit = 4, ref = 1\<rparr>)
   \<and> bufslurp (Some \<lparr>data = Some ''cdefefgh'', size_buf = 4, asize = 8, unit = 4, ref = 1\<rparr>) 3
     = Inr (Some \<lparr>data = Some ''fdefefgh'', size_buf = 1, asize = 8, unit = 4, ref = 1\<rparr>)
   \<and> bufslurp (Some \<lparr>data = Some ''abcdefgh'', size_buf = 6, asize = 8, unit = 4, ref = 1\<rparr>) (2 + 3)
     = Inr (Some \<lparr>data = Some ''fbcdefgh'', size_buf = 1, asize = 8, unit = 4, ref = 1\<rparr>)
   \<and> contents \<lparr>data = Some ''fdefefgh'', size_buf = 1, asize = 8, unit = 4, ref = 1\<rparr> = ''f''
   \<and> contents \<lparr>data = Some ''fbcdefgh'', size_buf = 1, asize = 8, unit = 4, ref = 1\<rparr> = ''f''"
proof -
  let ?b = "\<lparr>data = Some ''abcdefgh'', size_buf = 6, asize = 8, unit = 4, ref = 1\<rparr>"
  have h: "unit ?b \<noteq> 0" "(0 :: size_t) < 2" "(0 :: size_t) < 3"
      "unat (2 :: size_t) + unat (3 :: size_t) \<le> unat (size_buf ?b)"
      "unat (size_buf ?b) \<le> length (storage ?b)"
    by (simp_all add: storage_def)
  show ?thesis
    using bufslurp_twice [OF h]
    by (simp add: bufslurp_def memmove_def contents_def storage_def)
qed

section \<open>Reading an integer\<close>

lemma buftoi_loop_run:
  assumes "unat sz \<le> length d"
  shows "buftoi_loop d sz i r tr =
     (tr @ [unat i ..< min (unat sz) (unat i + length (takeWhile is_digit (drop (unat i) (take (unat sz) d))) + 1)],
      Inr (accum r (takeWhile is_digit (drop (unat i) (take (unat sz) d))),
           i + of_nat (length (takeWhile is_digit (drop (unat i) (take (unat sz) d))))))"
  using assms
proof (induction d sz i r tr rule: buftoi_loop.induct)
  case (1 d sz i r tr)
  show ?case
  proof (cases "i < sz")
    case False
    then have "unat sz \<le> unat i" by (simp add: word_less_nat_alt)
    then show ?thesis
      using False by (subst buftoi_loop.simps) (simp add: accum_def)
  next
    case True
    then have lt: "unat i < unat sz" by (simp add: word_less_nat_alt)
    then have inb: "\<not> length d \<le> unat i" using "1.prems" by simp
    have split: "drop (unat i) (take (unat sz) d) = d ! unat i # drop (Suc (unat i)) (take (unat sz) d)"
      using lt "1.prems" by (simp add: Cons_nth_drop_Suc [symmetric])
    show ?thesis
    proof (cases "is_digit (d ! unat i)")
      case False
      then show ?thesis
        using True inb lt split
        by (subst buftoi_loop.simps) (simp add: accum_def)
    next
      case dg: True
      have nx: "unat (i + 1) = Suc (unat i)" using True by (rule size_t_succ)
      have up: "[unat i ..< min (unat sz) (Suc (unat i) + length ds + 1)]
          = unat i # [Suc (unat i) ..< min (unat sz) (Suc (unat i) + length ds + 1)]" for ds :: string
        using lt by (simp add: upt_conv_Cons)
      show ?thesis
        using True inb dg "1.IH" [OF True inb dg "1.prems"] up
        by (subst buftoi_loop.simps) (simp add: split nx accum_def add.assoc)
    qed
  qed
qed

lemma accum_digits:
  "\<forall>c\<in>set ds. is_digit c \<Longrightarrow>
     accum (of_nat n) ds = of_nat (foldl (\<lambda>n c. 10 * n + (of_char c - of_char (CHR ''0''))) n ds)"
proof (induction ds arbitrary: n)
  case Nil
  then show ?case by (simp add: accum_def)
next
  case (Cons c ds)
  then have ge: "(48 :: nat) \<le> of_char c"
    by (simp add: is_digit_def)
  have a: "(of_nat (of_char c - of_char (CHR ''0'')) :: cint) = of_char c - of_char (CHR ''0'')"
    using ge by (simp add: of_nat_diff of_nat_of_char)
  have step: "(of_nat n :: cint) * 10 + of_char c - of_char (CHR ''0'')
      = of_nat (10 * n + (of_char c - of_char (CHR ''0'')))"
    unfolding of_nat_add a by simp
  have "accum (of_nat n) (c # ds)
      = accum ((of_nat n :: cint) * 10 + of_char c - of_char (CHR ''0'')) ds"
    by (simp add: accum_def)
  also have "\<dots> = accum (of_nat (10 * n + (of_char c - of_char (CHR ''0'')))) ds"
    by (simp only: step)
  also have "\<dots> = of_nat (foldl (\<lambda>n c. 10 * n + (of_char c - of_char (CHR ''0'')))
                      (10 * n + (of_char c - of_char (CHR ''0''))) ds)"
    using Cons.prems by (intro Cons.IH) simp
  finally show ?case
    by simp
qed

lemma accum_value:
  "accum 0 (takeWhile is_digit s) = of_nat (digits_value (takeWhile is_digit s))"
  using accum_digits [of "takeWhile is_digit s" 0]
  by (auto simp: digits_value_def dest: set_takeWhileD)

lemma buftoi_loop_reads:
  "j \<in> set (fst (buftoi_loop d sz i r tr)) \<Longrightarrow> j \<in> set tr \<or> j < unat sz"
proof (induction d sz i r tr rule: buftoi_loop.induct)
  case (1 d sz i r tr)
  show ?case
  proof (cases "i < sz \<and> \<not> length d \<le> unat i \<and> is_digit (d ! unat i)")
    case True
    then have "j \<in> set (tr @ [unat i]) \<or> j < unat sz"
      using "1.IH" "1.prems" by (subst (asm) buftoi_loop.simps) simp
    then show ?thesis
      using True by (auto simp: word_less_nat_alt)
  next
    case False
    then show ?thesis
      using "1.prems"
      by (subst (asm) buftoi_loop.simps) (auto simp: word_less_nat_alt split: if_splits)
  qed
qed

lemma buftoi_value:
  assumes off: "offset_i < size_buf b" and v: "unat (size_buf b) \<le> length (storage b)"
  shows "snd (buftoi (Some b) offset_i offset_o) =
           Inr (word_of_int (fst (parse_leading_integer (contents b) (unat offset_i))),
                map_option (\<lambda>_. of_nat (snd (parse_leading_integer (contents b) (unat offset_i)))) offset_o)
         \<and> snd (parse_leading_integer (contents b) (unat offset_i)) \<le> unat (size_buf b)"
proof -
  have lt: "unat offset_i < unat (size_buf b)"
    using off by (simp add: word_less_nat_alt)
  have ne: "size_buf b \<noteq> 0"
    using off by auto
  obtain d where d: "data b = Some d"
    using v lt by (cases "data b") (auto simp: storage_def)
  have len: "unat (size_buf b) \<le> length d"
    using v d by (simp add: storage_def)
  have c: "contents b = take (unat (size_buf b)) d"
    using d by (simp add: contents_def storage_def)
  have c0: "contents b ! unat offset_i = d ! unat offset_i"
    using lt by (simp add: c)
  have nx: "unat (offset_i + 1) = Suc (unat offset_i)"
    using off by (rule size_t_succ)
  define p where "p = (if d ! unat offset_i = CHR ''+'' \<or> d ! unat offset_i = CHR ''-''
                       then offset_i + 1 else offset_i)"
  define ds where "ds = takeWhile is_digit (drop (unat p) (take (unat (size_buf b)) d))"
  have run: "buftoi_loop d (size_buf b) p 0 [unat offset_i] =
      ([unat offset_i] @ [unat p ..< min (unat (size_buf b)) (unat p + length ds + 1)],
       Inr (of_nat (digits_value ds), p + of_nat (length ds)))"
    unfolding ds_def using buftoi_loop_run [OF len, of p 0 "[unat offset_i]"]
    by (simp add: accum_value)
  have up: "unat p = (if d ! unat offset_i = CHR ''+'' \<or> d ! unat offset_i = CHR ''-''
                       then unat offset_i + 1 else unat offset_i)"
    by (simp add: p_def nx)
  have spec: "parse_leading_integer (contents b) (unat offset_i) =
      (if d ! unat offset_i = CHR ''-'' then - int (digits_value ds) else int (digits_value ds),
       unat p + length ds)"
    unfolding parse_leading_integer_def c0 Let_def
    by (simp add: up ds_def c)
  have "length ds \<le> length (drop (unat p) (take (unat (size_buf b)) d))"
    unfolding ds_def by (rule length_takeWhile_le)
  then have bound: "unat p + length ds \<le> unat (size_buf b)"
    using lt len up by (auto split: if_splits)
  have endp: "p + of_nat (length ds) = (of_nat (unat p + length ds) :: size_t)"
    by simp
  have main: "snd (buftoi (Some b) offset_i offset_o) =
      Inr (if d ! unat offset_i = CHR ''-'' then - of_nat (digits_value ds) else of_nat (digits_value ds),
           map_option (\<lambda>_. p + of_nat (length ds)) offset_o)"
    using ne d len lt run
    by (cases offset_o) (auto simp: buftoi_def Let_def p_def)
  show ?thesis
    using main bound
    by (simp add: spec)
qed


text \<open>
  C8: for a buffer and an offset below its \<^verbatim>\<open>size\<close>, with the \<^verbatim>\<open>size\<close> bytes in the
  storage, \<open>buftoi\<close> returns the value that the specification gives for the contents,
  an optional sign and the longest run of digits after it, reduced to an \<^verbatim>\<open>int\<close> by
  wrap-around; it writes the offset just after the run through \<open>offset_o\<close> when that
  is not null, and the offset is at most \<^verbatim>\<open>size\<close>. For a null or an empty buffer it
  returns 0 and writes nothing.
\<close>

theorem buftoi_parses:
  assumes off: "offset_i < size_buf b" and v: "unat (size_buf b) \<le> length (storage b)"
  shows "snd (buftoi (Some b) offset_i offset_o) =
           Inr (word_of_int (fst (parse_leading_integer (contents b) (unat offset_i))),
                map_option (\<lambda>_. of_nat (snd (parse_leading_integer (contents b) (unat offset_i)))) offset_o)
         \<and> snd (parse_leading_integer (contents b) (unat offset_i)) \<le> unat (size_buf b)
         \<and> snd (buftoi None i out) = Inr (0, out)
         \<and> (size_buf e = 0 \<longrightarrow> snd (buftoi (Some e) i out) = Inr (0, out))"
  using buftoi_value [OF off v] by (simp add: buftoi_def)

text \<open>On \<^verbatim>\<open>"-42abc"\<close> from offset 0 the result is -42 and the offset written is 3.\<close>

theorem buftoi_parses_witness:
  "snd (buftoi (Some \<lparr>data = Some ''-42abc'', size_buf = 6, asize = 6, unit = 1, ref = 1\<rparr>) 0 (Some 0))
     = Inr (- 42, Some 3)
   \<and> parse_leading_integer ''-42abc'' 0 = (- 42, 3)"
proof -
  let ?b = "\<lparr>data = Some ''-42abc'', size_buf = 6, asize = 6, unit = 1, ref = 1\<rparr>"
  have h: "(0 :: size_t) < size_buf ?b" "unat (size_buf ?b) \<le> length (storage ?b)"
    by (simp_all add: storage_def)
  have c: "contents ?b = ''-42abc''"
    by (simp add: contents_def storage_def)
  have p: "parse_leading_integer ''-42abc'' 0 = (- 42, 3)"
    by (simp add: parse_leading_integer_def is_digit_def digits_value_def)
  show ?thesis
    using buftoi_parses [OF h, of "Some 0"] by (simp add: c p)
qed

lemma buftoi_loop_keeps: "set tr \<subseteq> set (fst (buftoi_loop d sz i r tr))"
proof (induction d sz i r tr rule: buftoi_loop.induct)
  case (1 d sz i r tr)
  show ?case
  proof (cases "i < sz \<and> \<not> length d \<le> unat i \<and> is_digit (d ! unat i)")
    case True
    then show ?thesis
      using "1.IH" by (subst buftoi_loop.simps) auto
  next
    case False
    then show ?thesis
      by (subst buftoi_loop.simps) auto
  qed
qed

lemma buftoi_fst:
  assumes "size_buf b \<noteq> 0"
  shows "fst (buftoi (Some b) offset_i offset_o) =
     (case data b of
        None \<Rightarrow> [unat offset_i]
      | Some d \<Rightarrow>
          if length d \<le> unat offset_i then [unat offset_i]
          else fst (buftoi_loop d (size_buf b)
                 (if d ! unat offset_i = CHR ''+'' \<or> d ! unat offset_i = CHR ''-''
                  then offset_i + 1 else offset_i) 0 [unat offset_i]))"
proof (cases "data b")
  case None
  then show ?thesis using assms by (simp add: buftoi_def)
next
  case (Some d)
  show ?thesis
  proof (cases "length d \<le> unat offset_i")
    case True
    then show ?thesis using assms Some by (simp add: buftoi_def)
  next
    case False
    define i where "i = (if d ! unat offset_i = CHR ''+'' \<or> d ! unat offset_i = CHR ''-''
                  then offset_i + 1 else offset_i)"
    obtain tr res where l: "buftoi_loop d (size_buf b) i 0 [unat offset_i] = (tr, res)"
      by (cases "buftoi_loop d (size_buf b) i 0 [unat offset_i]")
    have "fst (buftoi (Some b) offset_i offset_o) = tr"
      using assms Some False l
      by (cases res) (auto simp: buftoi_def Let_def i_def split: prod.splits)
    then show ?thesis
      using Some False l by (simp add: i_def)
  qed
qed

text \<open>
  C9: on a buffer that is neither null nor empty, \<open>buftoi\<close> reads \<^verbatim>\<open>data\<close> at
  \<open>offset_i\<close>, whatever the offset. When the offset is below \<^verbatim>\<open>size\<close>, every index it
  reads is below \<^verbatim>\<open>size\<close>, and with the \<^verbatim>\<open>size\<close> bytes in the storage no read faults.
  When the offset is \<^verbatim>\<open>size\<close> or more, an index at or after \<^verbatim>\<open>size\<close> is read.
\<close>

theorem buftoi_reads:
  "(size_buf b \<noteq> 0 \<longrightarrow> unat offset_i \<in> set (fst (buftoi (Some b) offset_i offset_o)))
   \<and> (offset_i < size_buf b \<longrightarrow>
        (\<forall>j\<in>set (fst (buftoi (Some b) offset_i offset_o)). j < unat (size_buf b)))
   \<and> (offset_i < size_buf b \<and> unat (size_buf b) \<le> length (storage b) \<longrightarrow>
        (\<exists>v. snd (buftoi (Some b) offset_i offset_o) = Inr v))
   \<and> (size_buf b \<noteq> 0 \<and> size_buf b \<le> offset_i \<longrightarrow>
        (\<exists>j\<in>set (fst (buftoi (Some b) offset_i offset_o)). unat (size_buf b) \<le> j))"
proof -
  have first: "unat offset_i \<in> set (fst (buftoi (Some b) offset_i offset_o))" if "size_buf b \<noteq> 0"
    using buftoi_loop_keeps [of "[unat offset_i]"]
    by (auto simp: buftoi_fst [OF that] split: option.splits)
  have below: "j < unat (size_buf b)"
    if "offset_i < size_buf b" "j \<in> set (fst (buftoi (Some b) offset_i offset_o))" for j
  proof -
    have lt: "unat offset_i < unat (size_buf b)"
      using that(1) by (simp add: word_less_nat_alt)
    have ne: "size_buf b \<noteq> 0"
      using that(1) by auto
    show ?thesis
      using that(2) lt buftoi_loop_reads [of j _ "size_buf b" _ 0 "[unat offset_i]"]
      by (auto simp: buftoi_fst [OF ne] split: option.splits if_splits)
  qed
  have nofault: "\<exists>v. snd (buftoi (Some b) offset_i offset_o) = Inr v"
    if "offset_i < size_buf b" "unat (size_buf b) \<le> length (storage b)"
    using buftoi_value [OF that] by simp
  have past: "\<exists>j\<in>set (fst (buftoi (Some b) offset_i offset_o)). unat (size_buf b) \<le> j"
    if "size_buf b \<noteq> 0" "size_buf b \<le> offset_i"
    using first [OF that(1)] that(2) by (auto simp: word_le_nat_alt)
  show ?thesis
    using first below nofault past by blast
qed

theorem buftoi_reads_witness:
  "fst (buftoi (Some \<lparr>data = Some ''42'', size_buf = 2, asize = 2, unit = 1, ref = 1\<rparr>) 2 None) = [2]
   \<and> snd (buftoi (Some \<lparr>data = Some ''42'', size_buf = 2, asize = 2, unit = 1, ref = 1\<rparr>) 2 None)
       = Inl OutOfBounds
   \<and> fst (buftoi (Some \<lparr>data = Some ''42'', size_buf = 2, asize = 2, unit = 1, ref = 1\<rparr>) 0 None) = [0, 0, 1]
   \<and> snd (buftoi (Some \<lparr>data = Some ''42'', size_buf = 2, asize = 2, unit = 1, ref = 1\<rparr>) 0 None)
       = Inr (42, None)"
proof -
  let ?b = "\<lparr>data = Some ''42'', size_buf = 2, asize = 2, unit = 1, ref = 1\<rparr>"
  have e: "buftoi (Some ?b) 2 None = ([2], Inl OutOfBounds)"
      "buftoi (Some ?b) 0 None = ([0, 0, 1], Inr (42, None))"
    by code_simp+
  show ?thesis
    using buftoi_reads [of ?b 2 None] buftoi_reads [of ?b 0 None]
    by (simp add: e)
qed

section \<open>Duplication\<close>

lemma least_multiple:
  fixes n m :: nat
  assumes "0 < m"
  shows "m dvd ((n + m - 1) div m) * m" "n \<le> ((n + m - 1) div m) * m"
    "m dvd x \<Longrightarrow> n \<le> x \<Longrightarrow> ((n + m - 1) div m) * m \<le> x"
proof -
  show "m dvd ((n + m - 1) div m) * m" by simp
  have "n + m - 1 < ((n + m - 1) div m) * m + m"
    using assms by (metis add.commute div_mult_mod_eq mod_less_divisor add_less_cancel_left mult.commute)
  then show "n \<le> ((n + m - 1) div m) * m" using assms by linarith
  assume "m dvd x" "n \<le> x"
  define q where "q = x div m"
  have q: "x = q * m"
    using \<open>m dvd x\<close> by (simp add: q_def)
  have "n + m - 1 < q * m + m" using \<open>n \<le> x\<close> q assms by linarith
  then have "n + m - 1 < (q + 1) * m" by simp
  then have "(n + m - 1) div m < q + 1"
    using assms by (simp add: less_mult_imp_div_less)
  then have "(n + m - 1) div m \<le> q" by simp
  then have "((n + m - 1) div m) * m \<le> q * m"
    by (rule mult_le_mono1)
  then show "((n + m - 1) div m) * m \<le> x"
    using q by simp
qed

lemma unat_dup_asize:
  assumes u: "dupunit \<noteq> 0" and fit: "unat sz + unat dupunit \<le> 2 ^ 64"
  shows "unat (dup_asize sz dupunit) = ((unat sz + unat dupunit - 1) div unat dupunit) * unat dupunit"
proof -
  have m: "0 < unat dupunit" using u by (simp add: unat_gt_0)
  have u1: "unat (dupunit - 1) = unat dupunit - 1"
    using u by (simp add: unat_minus_one)
  have "unat sz + unat (dupunit - 1) < 2 ^ LENGTH(64)"
    using fit m u1 by simp
  then have s: "unat (sz + (dupunit - 1)) = unat sz + unat dupunit - 1"
    using m u1 by (simp add: unat_add_lem [THEN iffD1])
  have d: "unat ((sz + dupunit - 1) div dupunit) = (unat sz + unat dupunit - 1) div unat dupunit"
    using s by (simp add: unat_div add_diff_eq)
  define t where "t = unat sz + unat dupunit - 1"
  have "t div unat dupunit * unat dupunit \<le> t"
    by simp
  moreover have "t < 2 ^ 64"
    using fit m by (simp add: t_def)
  ultimately have "t div unat dupunit * unat dupunit < 2 ^ 64"
    by (rule le_less_trans)
  then have "unat ((sz + dupunit - 1) div dupunit) * unat dupunit < 2 ^ LENGTH(64)"
    using d by (simp add: t_def)
  then have "unat ((sz + dupunit - 1) div dupunit * dupunit) = unat ((sz + dupunit - 1) div dupunit) * unat dupunit"
    by (simp add: unat_mult_lem [THEN iffD1])
  then show ?thesis
    by (simp add: dup_asize_def d)
qed

text \<open>
  C10, as the code has it. A source that is neither null nor empty reaches the
  division, which faults for \<open>dupunit = 0\<close>. For \<open>dupunit > 0\<close>, when
  \<^verbatim>\<open>src->size + dupunit - 1\<close> does not wrap around, the capacity \<^verbatim>\<open>blocks * dupunit\<close> is
  the least multiple of \<open>dupunit\<close> that is at least \<^verbatim>\<open>size\<close>. Where the capacity is at
  least \<^verbatim>\<open>size\<close>, the \<^verbatim>\<open>size\<close> bytes of the source lie in its storage and the allocations
  succeed, the duplicate has that capacity, a storage of that extent and the contents
  of the source. An empty source never reaches the division: the duplicate has
  capacity 0 and a null \<^verbatim>\<open>data\<close>, for every \<open>dupunit\<close>.
\<close>

theorem bufdup_capacity:
  "(size_buf sb \<noteq> 0 \<longrightarrow> bufdup (Some sb) 0 True a = Inl DivByZero)
   \<and> (dupunit \<noteq> 0 \<and> unat (size_buf sb) + unat dupunit \<le> 2 ^ 64 \<longrightarrow>
        unat dupunit dvd unat (dup_asize (size_buf sb) dupunit)
        \<and> unat (size_buf sb) \<le> unat (dup_asize (size_buf sb) dupunit)
        \<and> (\<forall>x. unat dupunit dvd x \<and> unat (size_buf sb) \<le> x \<longrightarrow>
               unat (dup_asize (size_buf sb) dupunit) \<le> x))
   \<and> (size_buf sb \<noteq> 0 \<and> dupunit \<noteq> 0
        \<and> unat (size_buf sb) \<le> unat (dup_asize (size_buf sb) dupunit)
        \<and> unat (size_buf sb) \<le> length (storage sb) \<longrightarrow>
        (\<exists>nb. bufdup (Some sb) dupunit True (Some junk) = Inr (Some nb)
           \<and> asize nb = dup_asize (size_buf sb) dupunit
           \<and> length (storage nb) = unat (asize nb)
           \<and> size_buf nb = size_buf sb \<and> contents nb = contents sb
           \<and> unit nb = dupunit \<and> ref nb = 1))
   \<and> (size_buf sb = 0 \<longrightarrow>
        bufdup (Some sb) dupunit True a
          = Inr (Some \<lparr>data = None, size_buf = 0, asize = 0, unit = dupunit, ref = 1\<rparr>))"
proof (intro conjI impI)
  assume "size_buf sb \<noteq> 0"
  then show "bufdup (Some sb) 0 True a = Inl DivByZero"
    by (simp add: bufdup_def)
next
  assume "size_buf sb = 0"
  then show "bufdup (Some sb) dupunit True a
          = Inr (Some \<lparr>data = None, size_buf = 0, asize = 0, unit = dupunit, ref = 1\<rparr>)"
    by (simp add: bufdup_def)
next
  assume h: "dupunit \<noteq> 0 \<and> unat (size_buf sb) + unat dupunit \<le> 2 ^ 64"
  define n where "n = unat (size_buf sb)"
  define c where "c = unat (dup_asize (size_buf sb) dupunit)"
  have m: "0 < unat dupunit" using h by (simp add: unat_gt_0)
  have c: "c = ((n + unat dupunit - 1) div unat dupunit) * unat dupunit"
    using h by (simp add: c_def n_def unat_dup_asize)
  have lm: "unat dupunit dvd c" "n \<le> c" "\<And>x. unat dupunit dvd x \<Longrightarrow> n \<le> x \<Longrightarrow> c \<le> x"
    unfolding c by (rule least_multiple [OF m]; assumption)+
  show "unat dupunit dvd unat (dup_asize (size_buf sb) dupunit)"
    and "unat (size_buf sb) \<le> unat (dup_asize (size_buf sb) dupunit)"
    and "\<forall>x. unat dupunit dvd x \<and> unat (size_buf sb) \<le> x \<longrightarrow>
               unat (dup_asize (size_buf sb) dupunit) \<le> x"
    using lm by (simp_all add: c_def n_def)
next
  assume h: "size_buf sb \<noteq> 0 \<and> dupunit \<noteq> 0
        \<and> unat (size_buf sb) \<le> unat (dup_asize (size_buf sb) dupunit)
        \<and> unat (size_buf sb) \<le> length (storage sb)"
  define n where "n = unat (size_buf sb)"
  define c where "c = unat (dup_asize (size_buf sb) dupunit)"
  have npos: "0 < n" using h by (simp add: n_def unat_gt_0)
  have nc: "n \<le> c" using h by (simp add: n_def c_def)
  obtain d where d: "data sb = Some d" "n \<le> length d"
    using h npos by (cases "data sb") (auto simp: storage_def n_def)
  define nb where "nb = \<lparr>data = Some (take n d @ drop n (map junk [0..<c])), size_buf = size_buf sb,
      asize = dup_asize (size_buf sb) dupunit, unit = dupunit, ref = 1\<rparr>"
  have r: "bufdup (Some sb) dupunit True (Some junk) = Inr (Some nb)"
    using h d nc npos
    by (simp add: bufdup_def realloc_def memcpy_def nb_def n_def [symmetric] c_def [symmetric])
  have "contents nb = contents sb"
    using d by (simp add: contents_def storage_def nb_def n_def [symmetric])
  moreover have "length (storage nb) = unat (asize nb)"
    using d nc by (simp add: storage_def nb_def c_def [symmetric])
  ultimately show "\<exists>nb. bufdup (Some sb) dupunit True (Some junk) = Inr (Some nb)
           \<and> asize nb = dup_asize (size_buf sb) dupunit
           \<and> length (storage nb) = unat (asize nb)
           \<and> size_buf nb = size_buf sb \<and> contents nb = contents sb
           \<and> unit nb = dupunit \<and> ref nb = 1"
    using r by (intro exI [of _ nb]) (simp add: nb_def)
qed

text \<open>
  C10 with \<open>dupunit > 0\<close> as its only precondition fails where the sum wraps around:
  for a source of 2 bytes and \<open>dupunit\<close> = \<^verbatim>\<open>SIZE_MAX\<close>, the sum is 0, the capacity is 0,
  which is below \<^verbatim>\<open>size\<close>, and the copy of the 2 bytes runs past the storage of 0 bytes.
\<close>

theorem bufdup_capacity_counterexample:
  "(18446744073709551615 :: size_t) \<noteq> 0
   \<and> dup_asize 2 18446744073709551615 = 0
   \<and> \<not> (2 :: size_t) \<le> dup_asize 2 18446744073709551615
   \<and> bufdup (Some \<lparr>data = Some ''ab'', size_buf = 2, asize = 2, unit = 1, ref = 1\<rparr>)
        18446744073709551615 True (Some (\<lambda>_. CHR ''x'')) = Inl OutOfBounds"
  by (simp add: dup_asize_def bufdup_def realloc_def memcpy_def)

theorem bufdup_capacity_witness:
  "bufdup (Some \<lparr>data = Some ''abcdeXYZ'', size_buf = 5, asize = 8, unit = 8, ref = 3\<rparr>) 0 True None
     = Inl DivByZero
   \<and> bufdup (Some \<lparr>data = Some ''abcdeXYZ'', size_buf = 5, asize = 8, unit = 8, ref = 3\<rparr>) 4 True
       (Some (\<lambda>_. CHR ''x''))
     = Inr (Some \<lparr>data = Some ''abcdexxx'', size_buf = 5, asize = 8, unit = 4, ref = 1\<rparr>)
   \<and> bufdup (Some \<lparr>data = None, size_buf = 0, asize = 0, unit = 8, ref = 1\<rparr>) 0 True None
     = Inr (Some \<lparr>data = None, size_buf = 0, asize = 0, unit = 0, ref = 1\<rparr>)"
proof -
  let ?b = "\<lparr>data = Some ''abcdeXYZ'', size_buf = 5, asize = 8, unit = 8, ref = 3\<rparr>"
  let ?e = "\<lparr>data = None, size_buf = 0, asize = 0, unit = 8, ref = 1\<rparr>"
  have e: "bufdup (Some ?b) 4 True (Some (\<lambda>_. CHR ''x''))
     = Inr (Some \<lparr>data = Some ''abcdexxx'', size_buf = 5, asize = 8, unit = 4, ref = 1\<rparr>)"
    by code_simp
  show ?thesis
    using bufdup_capacity [of ?b None 4 "\<lambda>_. CHR ''x''"] bufdup_capacity [of ?e None 0 "\<lambda>_. CHR ''x''"]
    by (simp add: e storage_def dup_asize_def)
qed

section \<open>Growth and appending\<close>

lemma bufgrow_loop_reaches:
  assumes "bufgrow_loop n t u = Some r"
  shows "t \<le> r"
proof (rule bufgrow_loop.raw_induct [where P = "\<lambda>n t u r. t \<le> r", OF _ assms])
  fix f :: "size_t \<Rightarrow> size_t \<Rightarrow> size_t \<Rightarrow> size_t option" and n t u r
  assume ih: "\<And>n t u r. f n t u = Some r \<Longrightarrow> t \<le> r"
    and step: "(if n < t then f (n + u) t u else Some n) = Some r"
  show "t \<le> r"
  proof (cases "n < t")
    case True
    then show ?thesis using ih step by simp
  next
    case False
    then show ?thesis using step by auto
  qed
qed

lemma bufgrow_loop_returns:
  assumes "unat n + k * unat u < 2 ^ 64" "unat t \<le> unat n + k * unat u"
  shows "\<exists>r. bufgrow_loop n t u = Some r"
  using assms
proof (induction k arbitrary: n)
  case 0
  then have "\<not> n < t"
    by (simp add: word_less_nat_alt)
  then show ?case
    by (subst bufgrow_loop.simps) simp
next
  case (Suc k)
  show ?case
  proof (cases "n < t")
    case False
    then show ?thesis
      by (subst bufgrow_loop.simps) simp
  next
    case True
    have "unat n + unat u < 2 ^ LENGTH(64)"
      using Suc.prems(1) by simp
    then have s: "unat (n + u) = unat n + unat u"
      by (simp only: unat_add_lem)
    have "\<exists>r. bufgrow_loop (n + u) t u = Some r"
      using Suc.prems by (intro Suc.IH) (simp_all add: s)
    then show ?thesis
      using True by (subst bufgrow_loop.simps) simp
  qed
qed

lemma bufgrow_effect:
  assumes u: "unit b \<noteq> 0" and ok: "size_buf b \<le> asize b" "length (storage b) = unat (asize b)"
    and g: "bufgrow (Some b) t a = Some (r, bo)"
  shows "(r = 0 \<and> bo = Some b \<and> a = None \<and> \<not> t \<le> asize b)
       \<or> (r = 1 \<and> (\<exists>b'. bo = Some b' \<and> t \<le> asize b' \<and> size_buf b' = size_buf b
               \<and> unit b' = unit b \<and> ref b' = ref b
               \<and> length (storage b') = unat (asize b')
               \<and> take (unat (asize b)) (storage b') = storage b
               \<and> (data b' = None \<longrightarrow> asize b' = 0)))"
proof (cases "t \<le> asize b")
  case True
  then have "bo = Some b" "r = 1"
    using u g by (simp_all add: bufgrow_def)
  moreover have "data b = None \<longrightarrow> asize b = 0"
    using ok(2) by (auto simp: storage_def unat_eq_0)
  ultimately show ?thesis
    using True ok by simp
next
  case False
  then obtain z where z: "bufgrow_loop (asize b + unit b) t (unit b) = Some z"
    using u g by (auto simp: bufgrow_def split: option.splits)
  have tz: "t \<le> z"
    using z by (rule bufgrow_loop_reaches)
  then have az: "unat (asize b) < unat z"
    using False by (simp add: word_le_nat_alt)
  show ?thesis
  proof (cases a)
    case None
    then show ?thesis
      using u g False z by (simp add: bufgrow_def realloc_def)
  next
    case (Some junk)
    define b' where "b' = b\<lparr>data := Some (storage b @ map junk [unat (asize b) ..< unat z]), asize := z\<rparr>"
    have "realloc (data b) z a = Some (storage b @ map junk [unat (asize b) ..< unat z])"
      using Some ok az by (simp add: realloc_def storage_def split: option.splits)
    then have "bo = Some b'" "r = 1"
      using u g False z by (simp_all add: bufgrow_def b'_def)
    moreover have "length (storage b') = unat (asize b')"
      using ok az by (simp add: b'_def storage_def [of "b\<lparr>data := _, asize := _\<rparr>"])
    moreover have "take (unat (asize b)) (storage b') = storage b"
      using ok by (simp add: b'_def storage_def [of "b\<lparr>data := _, asize := _\<rparr>"])
    ultimately show ?thesis
      using tz by (simp add: b'_def)
  qed
qed


text \<open>
  C1: \<open>b\<close> is a buffer with \<^verbatim>\<open>unit > 0\<close>, \<^verbatim>\<open>size <= asize\<close> and a storage of \<^verbatim>\<open>asize\<close> bytes;
  \<open>dat\<close> holds at least \<open>len\<close> bytes, and \<^verbatim>\<open>size + len\<close> is a \<^verbatim>\<open>size_t\<close>. When
  \<open>bufput\<close> returns, either \<open>bufgrow\<close> returned 0, the allocation having failed, and
  the buffer is as before; or \<^verbatim>\<open>size\<close> has grown by \<open>len\<close> and the contents are the old
  contents followed by the first \<open>len\<close> bytes of \<open>dat\<close>. And \<open>bufput\<close> does return
  when a capacity \<^verbatim>\<open>asize + k * unit\<close> that holds \<^verbatim>\<open>size + len\<close> bytes is a \<^verbatim>\<open>size_t\<close>.
\<close>

theorem bufput_appends:
  assumes u: "unit b \<noteq> 0" and ok: "size_buf b \<le> asize b" "length (storage b) = unat (asize b)"
    and dat: "unat len \<le> length dat" and fit: "unat (size_buf b) + unat len < 2 ^ 64"
  shows "(bufput (Some b) dat len a = Some res \<longrightarrow>
            ((\<exists>bo. bufgrow (Some b) (size_buf b + len) a = Some (0, bo)) \<and> a = None
               \<and> res = Inr (Some b))
          \<or> (\<exists>b'. res = Inr (Some b')
               \<and> unat (size_buf b') = unat (size_buf b) + unat len
               \<and> contents b' = contents b @ take (unat len) dat
               \<and> unit b' = unit b \<and> ref b' = ref b
               \<and> size_buf b' \<le> asize b' \<and> length (storage b') = unat (asize b')))
       \<and> (unat (asize b) + k * unat (unit b) < 2 ^ 64
            \<and> unat (size_buf b) + unat len \<le> unat (asize b) + k * unat (unit b) \<longrightarrow>
          (\<exists>res. bufput (Some b) dat len a = Some res))"
proof (intro conjI impI)
  have sum: "unat (size_buf b + len) = unat (size_buf b) + unat len"
    using fit by (simp add: unat_add_lem [THEN iffD1])
  have sz: "unat (size_buf b) \<le> unat (asize b)"
    using ok(1) by (simp add: word_le_nat_alt)
  {
    assume p: "bufput (Some b) dat len a = Some res"
    then obtain r bo where g: "bufgrow (Some b) (size_buf b + len) a = Some (r, bo)"
      by (cases "bufgrow (Some b) (size_buf b + len) a") (auto simp: bufput_def)
    from bufgrow_effect [OF u ok g]
    show "((\<exists>bo. bufgrow (Some b) (size_buf b + len) a = Some (0, bo)) \<and> a = None
               \<and> res = Inr (Some b))
          \<or> (\<exists>b'. res = Inr (Some b')
               \<and> unat (size_buf b') = unat (size_buf b) + unat len
               \<and> contents b' = contents b @ take (unat len) dat
               \<and> unit b' = unit b \<and> ref b' = ref b
               \<and> size_buf b' \<le> asize b' \<and> length (storage b') = unat (asize b'))"
    proof (elim disjE conjE exE)
      assume "r = 0" "bo = Some b" "a = None"
      then show ?thesis
        using p g by (simp add: bufput_def)
    next
      fix b1
      assume r: "r = 1" and b1: "bo = Some b1" "size_buf b + len \<le> asize b1"
        "size_buf b1 = size_buf b" "unit b1 = unit b" "ref b1 = ref b"
        "length (storage b1) = unat (asize b1)" "take (unat (asize b)) (storage b1) = storage b"
        "data b1 = None \<longrightarrow> asize b1 = 0"
      have room: "unat (size_buf b) + unat len \<le> length (storage b1)"
        using b1(2,6) sum by (simp add: word_le_nat_alt)
      have pre: "take (unat (size_buf b)) (storage b1) = contents b"
      proof -
        have "take (unat (size_buf b)) (take (unat (asize b)) (storage b1)) = contents b"
          by (simp only: b1(7) contents_def)
        then show ?thesis
          using sz by (simp add: min_def)
      qed
      show ?thesis
      proof (cases "unat len = 0")
        case True
        then have "res = Inr (Some (b1\<lparr>data := data b1, size_buf := size_buf b1 + len\<rparr>))"
          using p g r b1(1) by (simp add: bufput_def memcpy_def)
        moreover have "len = 0"
          using True by (simp add: unat_eq_0)
        ultimately have "res = Inr (Some b1)"
          by simp
        then show ?thesis
          using b1 True sum pre \<open>len = 0\<close>
          by (intro disjI2 exI [of _ b1]) (simp add: contents_def)
      next
        case False
        then have "0 < length (storage b1)"
          using room by (cases "storage b1") simp_all
        then obtain d where d: "data b1 = Some d"
          by (cases "data b1") (auto simp: storage_def)
        have dl: "unat (size_buf b) + unat len \<le> length d" "length d = unat (asize b1)"
            "take (unat (size_buf b)) d = contents b"
          using room d b1(6) pre by (simp_all add: storage_def)
        define b2 where "b2 = b1\<lparr>data := Some (take (unat (size_buf b)) d @ take (unat len) dat
                                 @ drop (unat (size_buf b) + unat len) d),
                                 size_buf := size_buf b + len\<rparr>"
        have "res = Inr (Some b2)"
          using p g r b1(1,3) d dl(1) dat False
          by (simp add: bufput_def memcpy_def b2_def)
        moreover have "contents b2 = contents b @ take (unat len) dat"
        proof -
          have "contents b2 = take (unat (size_buf b) + unat len)
              (take (unat (size_buf b)) d @ take (unat len) dat
                 @ drop (unat (size_buf b) + unat len) d)"
            by (simp add: contents_def storage_def b2_def sum)
          also have "\<dots> = take (unat (size_buf b)) d @ take (unat len) dat"
            using dl(1) dat by simp
          finally show ?thesis
            by (simp only: dl(3))
        qed
        moreover have "length (storage b2) = unat (asize b2)"
          using dl(1,2) dat by (simp add: storage_def b2_def)
        ultimately show ?thesis
          using b1 sum by (intro disjI2 exI [of _ b2]) (simp add: b2_def)
      qed
    qed
  }
  {
    assume k: "unat (asize b) + k * unat (unit b) < 2 ^ 64
            \<and> unat (size_buf b) + unat len \<le> unat (asize b) + k * unat (unit b)"
    have "\<exists>r bo. bufgrow (Some b) (size_buf b + len) a = Some (r, bo)"
    proof (cases "size_buf b + len \<le> asize b")
      case True
      then show ?thesis using u by (simp add: bufgrow_def)
    next
      case False
      then have "unat (asize b) < unat (size_buf b) + unat len"
        using sum by (simp add: word_le_nat_alt)
      then obtain j where j: "k = Suc j"
        using k by (cases k) auto
      have "unat (asize b) + unat (unit b) < 2 ^ LENGTH(64)"
        using k j by simp
      then have s: "unat (asize b + unit b) = unat (asize b) + unat (unit b)"
        by (simp only: unat_add_lem)
      have "\<exists>z. bufgrow_loop (asize b + unit b) (size_buf b + len) (unit b) = Some z"
        using k j by (intro bufgrow_loop_returns [of _ j]) (simp_all add: s sum)
      then show ?thesis
        using u False by (auto simp: bufgrow_def split: option.splits)
    qed
    then show "\<exists>res. bufput (Some b) dat len a = Some res"
      by (auto simp: bufput_def split: option.splits sum.splits)
  }
qed

text \<open>
  The scenario of the specification: after \<^verbatim>\<open>"hello"\<close> in a buffer of unit 8, ten more
  bytes give \<^verbatim>\<open>size\<close> 15 and \<^verbatim>\<open>asize\<close> 16.
\<close>

theorem bufput_appends_witness:
  "bufput (Some \<lparr>data = Some ''helloxxx'', size_buf = 5, asize = 8, unit = 8, ref = 1\<rparr>)
       ''0123456789'' 10 (Some (\<lambda>_. CHR ''.''))
     = Some (Inr (Some \<lparr>data = Some ''hello0123456789.'', size_buf = 15, asize = 16, unit = 8, ref = 1\<rparr>))
   \<and> contents \<lparr>data = Some ''hello0123456789.'', size_buf = 15, asize = 16, unit = 8, ref = 1\<rparr>
     = contents \<lparr>data = Some ''helloxxx'', size_buf = 5, asize = 8, unit = 8, ref = 1\<rparr> @ ''0123456789''
   \<and> bufput (Some \<lparr>data = Some ''helloxxx'', size_buf = 5, asize = 8, unit = 8, ref = 1\<rparr>)
       ''0123456789'' 10 None
     = Some (Inr (Some \<lparr>data = Some ''helloxxx'', size_buf = 5, asize = 8, unit = 8, ref = 1\<rparr>))"
proof -
  let ?b = "\<lparr>data = Some ''helloxxx'', size_buf = 5, asize = 8, unit = 8, ref = 1\<rparr>"
  let ?b' = "\<lparr>data = Some ''hello0123456789.'', size_buf = 15, asize = 16, unit = 8, ref = 1\<rparr>"
  have h: "unit ?b \<noteq> 0" "size_buf ?b \<le> asize ?b" "length (storage ?b) = unat (asize ?b)"
      "unat (10 :: size_t) \<le> length ''0123456789''" "unat (size_buf ?b) + unat (10 :: size_t) < 2 ^ 64"
    by (simp_all add: storage_def)
  have e: "bufput (Some ?b) ''0123456789'' 10 (Some (\<lambda>_. CHR ''.'')) = Some (Inr (Some ?b'))"
      "bufput (Some ?b) ''0123456789'' 10 None = Some (Inr (Some ?b))"
    by code_simp+
  have c: "contents ?b' = contents ?b @ ''0123456789''"
    by (simp add: contents_def storage_def)
  show ?thesis
    using bufput_appends [OF h, of "Some (\<lambda>_. CHR ''.'')" "Inr (Some ?b')" 1]
      bufput_appends [OF h, of None "Inr (Some ?b)" 1]
    by (simp add: e c)
qed

section \<open>Assignment\<close>





section \<open>Allocation failure\<close>



















end
